theory Spec2Isabelle
  imports Main "HOL-Library.Char_ord" "HOL-Library.List_Lexorder"
begin

section \<open>Automatic registration of coroutine functions as routes\<close>

text \<open>
  A shallow embedding of \<^verbatim>\<open>register_functions_as_routes_fastapi.py\<close>: the decorator
  extractor, the decorator parser, the router finder and the route registrar, with the
  pieces of the Python library they call (\<^verbatim>\<open>str\<close> methods, one regular expression,
  \<^verbatim>\<open>inspect\<close>, \<^verbatim>\<open>APIRouter.add_api_route\<close>) written out as far as the code
  depends on them.
\<close>

subsection \<open>Python strings\<close>

text \<open>
  Text is a \<^typ>\<open>string\<close>; a \<^typ>\<open>char\<close> stands for the code point of the same number, so
  the embedding covers text in the range U+0000 to U+00FF. The character classes are
  those of CPython on that range.
\<close>

definition is_space :: "char \<Rightarrow> bool" where
  \<comment> \<open>\<^verbatim>\<open>str.isspace\<close>, the class stripped by \<^verbatim>\<open>str.strip()\<close> and matched by \<^verbatim>\<open>\s\<close>\<close>
  "is_space c =
     (let n = (of_char c :: nat)
      in (9 \<le> n \<and> n \<le> 13) \<or> (28 \<le> n \<and> n \<le> 32) \<or> n = 133 \<or> n = 160)"

definition is_linebreak :: "char \<Rightarrow> bool" where
  \<comment> \<open>the line boundaries of \<^verbatim>\<open>str.splitlines\<close>\<close>
  "is_linebreak c =
     (let n = (of_char c :: nat)
      in (10 \<le> n \<and> n \<le> 13) \<or> (28 \<le> n \<and> n \<le> 30) \<or> n = 133)"

definition is_word :: "char \<Rightarrow> bool" where
  \<comment> \<open>\<^verbatim>\<open>\w\<close> of a \<^verbatim>\<open>str\<close> pattern: alphanumeric code points and the underscore\<close>
  "is_word c =
     (let n = (of_char c :: nat)
      in (48 \<le> n \<and> n \<le> 57) \<or> (65 \<le> n \<and> n \<le> 90) \<or> n = 95 \<or> (97 \<le> n \<and> n \<le> 122)
         \<or> n = 170 \<or> n = 178 \<or> n = 179 \<or> n = 181 \<or> n = 185 \<or> n = 186
         \<or> (188 \<le> n \<and> n \<le> 190) \<or> (192 \<le> n \<and> n \<le> 214)
         \<or> (216 \<le> n \<and> n \<le> 246) \<or> (248 \<le> n \<and> n \<le> 255))"

definition upper_char :: "char \<Rightarrow> string" where
  \<comment> \<open>upper case of one code point; U+00DF becomes two letters. The upper case of U+00B5
      and of U+00FF lies beyond U+00FF: they are left as they are, and text that holds
      them is outside the embedding.\<close>
  "upper_char c =
     (let n = (of_char c :: nat)
      in if (97 \<le> n \<and> n \<le> 122) \<or> (224 \<le> n \<and> n \<le> 254 \<and> n \<noteq> 247)
         then [char_of (n - 32)]
         else if n = 223 then ''SS'' else [c])"

definition upper :: "string \<Rightarrow> string" where
  "upper s = concat (map upper_char s)"

definition startswith :: "string \<Rightarrow> string \<Rightarrow> bool" where
  "startswith s p = (take (length p) s = p)"

definition lstrip :: "string \<Rightarrow> string" where
  "lstrip s = dropWhile is_space s"

definition rstrip :: "string \<Rightarrow> string" where
  "rstrip s = rev (dropWhile is_space (rev s))"

definition strip :: "string \<Rightarrow> string" where
  "strip s = rstrip (lstrip s)"

definition lstrip_chars :: "string \<Rightarrow> string \<Rightarrow> string" where
  \<comment> \<open>\<^verbatim>\<open>s.lstrip(chars)\<close>: drops every leading character that occurs in \<^verbatim>\<open>chars\<close>\<close>
  "lstrip_chars s chars = dropWhile (\<lambda>c. c \<in> set chars) s"

fun find_str :: "string \<Rightarrow> string \<Rightarrow> int" where
  \<comment> \<open>\<^verbatim>\<open>s.find(sub)\<close>: the lowest index where \<^verbatim>\<open>sub\<close> starts, or \<open>-1\<close>\<close>
  "find_str [] sub = (if sub = [] then 0 else - 1)"
| "find_str (c # s) sub =
     (if startswith (c # s) sub then 0
      else let r = find_str s sub in if r < 0 then - 1 else r + 1)"

definition slice_to :: "string \<Rightarrow> int \<Rightarrow> string" where
  \<comment> \<open>\<^verbatim>\<open>s[:k]\<close>: a negative \<^verbatim>\<open>k\<close> counts from the end\<close>
  "slice_to s k = (if k < 0 then take (nat (int (length s) + k)) s else take (nat k) s)"

fun split_str :: "string \<Rightarrow> char \<Rightarrow> string list" where
  \<comment> \<open>\<^verbatim>\<open>s.split(sep)\<close> for a separator of one character; the result of the recursive call
      is never empty\<close>
  "split_str [] sep = [[]]"
| "split_str (c # s) sep =
     (if c = sep then [] # split_str s sep
      else (case split_str s sep of
              [] \<Rightarrow> [[c]]
            | w # ws \<Rightarrow> (c # w) # ws))"

function splitlines :: "string \<Rightarrow> string list" where
  \<comment> \<open>\<^verbatim>\<open>s.splitlines()\<close>: the lines without their ends; a carriage return followed by a
      line feed is one line end; no empty line after a final line end\<close>
  "splitlines s =
     (if s = [] then []
      else takeWhile (\<lambda>c. \<not> is_linebreak c) s #
        (case dropWhile (\<lambda>c. \<not> is_linebreak c) s of
           [] \<Rightarrow> []
         | c # r \<Rightarrow>
             (case r of
                [] \<Rightarrow> splitlines r
              | d # r' \<Rightarrow> if c = CHR 0x0D \<and> d = CHR 0x0A then splitlines r' else splitlines r)))"
  by pat_completeness auto
termination
proof (relation "measure length")
  show "wf (measure length)" by simp
next
  fix s :: string and c r
  assume "dropWhile (\<lambda>c. \<not> is_linebreak c) s = c # r"
  then have "length (c # r) \<le> length s"
    by (metis length_dropWhile_le)
  then show "(r, s) \<in> measure length" by simp
next
  fix s :: string and c r d r'
  assume "dropWhile (\<lambda>c. \<not> is_linebreak c) s = c # r" and "r = d # r'"
  then have "length (c # d # r') \<le> length s"
    by (metis length_dropWhile_le)
  then show "(r', s) \<in> measure length" by simp
next
  fix s :: string and c r d r'
  assume "dropWhile (\<lambda>c. \<not> is_linebreak c) s = c # r" and "r = d # r'"
  then have "length (c # r) \<le> length s"
    by (metis length_dropWhile_le)
  then show "(r, s) \<in> measure length" by simp
qed

declare splitlines.simps [simp del]

definition replace_str :: "string \<Rightarrow> char \<Rightarrow> char \<Rightarrow> string" where
  \<comment> \<open>\<^verbatim>\<open>s.replace(old, new)\<close> for \<^verbatim>\<open>old\<close> and \<^verbatim>\<open>new\<close> of one character each\<close>
  "replace_str s old new = map (\<lambda>c. if c = old then new else c) s"

subsection \<open>The decorator parser\<close>

datatype error =
    StopIteration
  | AttributeError
  | SourceError string
  | RouterError string

text \<open>
  \<^verbatim>\<open>parse_decorator_line\<close> returns a \<^verbatim>\<open>SimpleNamespace(name=..., args=...)\<close> where the
  pattern matches and a plain tuple where it does not. Reading \<^verbatim>\<open>.name\<close> of a tuple
  raises \<^verbatim>\<open>AttributeError\<close>.
\<close>

datatype decorator =
    SimpleNamespace string "string list"
  | Tuple string "string list"

fun attr_name :: "decorator \<Rightarrow> error + string" where
  "attr_name (SimpleNamespace n a) = Inr n"
| "attr_name (Tuple n a) = Inl AttributeError"

definition name_char :: "char \<Rightarrow> bool" where
  \<comment> \<open>the class \<^verbatim>\<open>[\w\.]\<close>\<close>
  "name_char c = (is_word c \<or> c = CHR ''.'')"

definition re_match :: "string \<Rightarrow> (string \<times> string option) option" where
  \<comment> \<open>\<^verbatim>\<open>re.match(r"(\w[\w\.]*)\s*(\((.*)\))?", deco)\<close>, giving groups 1 and 3.
      Group 1 is one word character and the longest run of \<^verbatim>\<open>[\w\.]\<close> after it;
      \<^verbatim>\<open>\s*\<close> takes all the white space that follows; the optional group needs an
      opening parenthesis there, and its greedy \<^verbatim>\<open>.*\<close> (which stops at a line feed)
      backtracks to the last closing parenthesis of that line. Where the group fails,
      it is skipped and group 3 is \<^verbatim>\<open>None\<close>.\<close>
  "re_match deco =
     (case deco of
        [] \<Rightarrow> None
      | c # _ \<Rightarrow>
          if \<not> is_word c then None
          else
            let name = takeWhile name_char deco;
                rest = dropWhile is_space (dropWhile name_char deco)
            in Some (name,
                 (case rest of
                    [] \<Rightarrow> None
                  | p # body \<Rightarrow>
                      if p \<noteq> CHR ''('' then None
                      else
                        let line = takeWhile (\<lambda>c. c \<noteq> CHR 0x0A) body
                        in if CHR '')'' \<in> set line
                           then Some (rev (tl (dropWhile (\<lambda>c. c \<noteq> CHR '')'') (rev line))))
                           else None)))"

definition parse_decorator_line :: "string \<Rightarrow> decorator" where
  "parse_decorator_line line =
     (let deco = lstrip_chars line ''@''
      in case re_match deco of
           None \<Rightarrow> Tuple deco []
         | Some (name, args) \<Rightarrow>
             let args_list =
                   (case args of
                      None \<Rightarrow> []
                    | Some a \<Rightarrow> if a = [] then [] else map strip (split_str a CHR '',''))
             in SimpleNamespace name args_list)"

subsection \<open>Functions, modules and routers\<close>

text \<open>
  A function object carries its \<^verbatim>\<open>__name__\<close>, its \<^verbatim>\<open>__module__\<close> and what
  \<^verbatim>\<open>inspect.getsource\<close> gives for it: the source text, or the error it raises.
  \<open>fn_id\<close> is the identity of the object. A module attribute is a coroutine function, an
  \<^verbatim>\<open>APIRouter\<close> (a reference into the store of routers) or anything else.
\<close>

record func =
  fn_id :: nat
  fn_name :: string
  fn_module :: string
  fn_source :: "error + string"

type_synonym router_ref = nat

datatype obj =
    Coroutine func
  | APIRouter router_ref
  | Other

record module =
  mod_name :: string
  mod_vars :: "(string \<times> obj) list"
    \<comment> \<open>\<^verbatim>\<open>vars(module)\<close>, in insertion order\<close>

record 'x route =
  route_path :: string
  route_handler :: func
  route_methods :: "string list"
  route_extra :: 'x
    \<comment> \<open>the positional and keyword arguments passed through\<close>

type_synonym 'x store = "router_ref \<Rightarrow> 'x route list"

text \<open>
  \<^verbatim>\<open>APIRouter.add_api_route\<close> builds the route, which may raise, and appends it to the
  router's routes. What the router refuses is a parameter \<open>validate\<close>: from the routes
  present and the new route to the error raised, if any.
\<close>

type_synonym 'x validate = "'x route list \<Rightarrow> 'x route \<Rightarrow> error option"

definition add_api_route ::
  "'x validate \<Rightarrow> router_ref \<Rightarrow> 'x route \<Rightarrow> 'x store \<Rightarrow> error option \<times> 'x store" where
  "add_api_route validate router r st =
     (case validate (st router) r of
        Some e \<Rightarrow> (Some e, st)
      | None \<Rightarrow> (None, st(router := st router @ [r])))"

subsection \<open>The decorator extractor\<close>

definition get_decorator_lines :: "func \<Rightarrow> error + string list" where
  "get_decorator_lines fn =
     (case fn_source fn of
        Inl e \<Rightarrow> Inl e
      | Inr source \<Rightarrow>
          let func_index = find_str source ''def '';
              lines = splitlines (strip (slice_to source func_index))
          in Inr [strip line. line \<leftarrow> lines, startswith (strip line) ''@''])"

definition get_decorators :: "func \<Rightarrow> error + decorator list" where
  "get_decorators fn =
     (case get_decorator_lines fn of
        Inl e \<Rightarrow> Inl e
      | Inr lines \<Rightarrow> Inr [parse_decorator_line line. line \<leftarrow> lines])"

subsection \<open>The router finder\<close>

definition find_routers_in_module :: "module \<Rightarrow> (string \<times> router_ref) list" where
  \<comment> \<open>the dictionary built, as its items in insertion order\<close>
  "find_routers_in_module m = [(name, r). (name, APIRouter r) \<leftarrow> mod_vars m]"

subsection \<open>The route registrar\<close>

definition auto_route ::
  "'x validate \<Rightarrow> router_ref \<Rightarrow> func \<Rightarrow> string list option \<Rightarrow> 'x \<Rightarrow> 'x store
     \<Rightarrow> error option \<times> 'x store" where
  "auto_route validate router handler methods args st =
     (let methods = (case methods of None \<Rightarrow> [''get''] | Some ms \<Rightarrow> ms);
          path = ''/'' @ replace_str (fn_name handler) CHR ''_'' CHR ''-''
      in add_api_route validate router
           \<lparr>route_path = path, route_handler = handler,
            route_methods = [upper method. method \<leftarrow> methods], route_extra = args\<rparr> st)"

definition getmembers :: "module \<Rightarrow> (string \<times> func) list" where
  \<comment> \<open>\<^verbatim>\<open>inspect.getmembers(module, inspect.iscoroutinefunction)\<close>: the attributes that
      pass the predicate, sorted by name\<close>
  "getmembers m = [(name, fn). (name, Coroutine fn) \<leftarrow> sort_key fst (mod_vars m)]"

fun any_name_startswith :: "string \<Rightarrow> decorator list \<Rightarrow> error + bool" where
  \<comment> \<open>\<^verbatim>\<open>any(d.name.startswith(router_name) for d in ds)\<close>: stops at the first hit\<close>
  "any_name_startswith router_name [] = Inr False"
| "any_name_startswith router_name (d # ds) =
     (case attr_name d of
        Inl e \<Rightarrow> Inl e
      | Inr n \<Rightarrow> if startswith n router_name then Inr True
                 else any_name_startswith router_name ds)"

definition has_fastapi_decorator :: "string \<Rightarrow> func \<Rightarrow> error + bool" where
  "has_fastapi_decorator router_name fn =
     (case get_decorators fn of
        Inl e \<Rightarrow> Inl e
      | Inr ds \<Rightarrow> any_name_startswith router_name ds)"

definition register_member ::
  "'x validate \<Rightarrow> string \<Rightarrow> router_ref \<Rightarrow> string \<Rightarrow> string list option \<Rightarrow> 'x
     \<Rightarrow> string \<times> func \<Rightarrow> 'x store \<Rightarrow> error option \<times> 'x store" where
  \<comment> \<open>the body of the loop, for one member\<close>
  "register_member validate router_name router module_name methods args member st =
     (case member of (name, fn) \<Rightarrow>
        (case has_fastapi_decorator router_name fn of
           Inl e \<Rightarrow> (Some e, st)
         | Inr has_decorator \<Rightarrow>
             if fn_module fn = module_name \<and> \<not> has_decorator \<and> \<not> startswith name ''noroute_''
             then auto_route validate router fn methods args st
             else (None, st)))"

fun register_loop ::
  "'x validate \<Rightarrow> string \<Rightarrow> router_ref \<Rightarrow> string \<Rightarrow> string list option \<Rightarrow> 'x
     \<Rightarrow> (string \<times> func) list \<Rightarrow> 'x store \<Rightarrow> error option \<times> 'x store" where
  "register_loop validate router_name router module_name methods args [] st = (None, st)"
| "register_loop validate router_name router module_name methods args (member # members) st =
     (case register_member validate router_name router module_name methods args member st of
        (Some e, st') \<Rightarrow> (Some e, st')
      | (None, st') \<Rightarrow>
          register_loop validate router_name router module_name methods args members st')"

definition register_functions_as_routes ::
  "'x validate \<Rightarrow> module \<Rightarrow> string list option \<Rightarrow> 'x \<Rightarrow> 'x store \<Rightarrow> error option \<times> 'x store" where
  \<comment> \<open>the result is the exception raised, if any, and the routers after the call\<close>
  "register_functions_as_routes validate m methods args st =
     (case find_routers_in_module m of
        [] \<Rightarrow> (Some StopIteration, st)
      | (router_name, router) # _ \<Rightarrow>
          register_loop validate router_name router (mod_name m) methods args (getmembers m) st)"

definition default_methods :: "string list option" where
  \<comment> \<open>the default of the parameter \<^verbatim>\<open>methods\<close> of \<^verbatim>\<open>register_functions_as_routes\<close>\<close>
  "default_methods = Some [''get'']"

definition routes_added :: "'x store \<Rightarrow> 'x store \<Rightarrow> router_ref \<Rightarrow> 'x route list" where
  \<comment> \<open>the routes of a router in \<open>st'\<close> beyond those it had in \<open>st\<close>\<close>
  "routes_added st st' router = drop (length (st router)) (st' router)"

subsection \<open>Vocabulary of the properties\<close>

text \<open>
  A member of the module is eligible when the three conditions of the loop hold for it and
  the search through its decorators raised nothing; \<open>route_for\<close> is the route that
  \<^verbatim>\<open>auto_route\<close> hands to the router for a member.
\<close>

definition eligible :: "string \<Rightarrow> string \<Rightarrow> string \<times> func \<Rightarrow> bool" where
  "eligible router_name module_name member =
     (case member of (name, fn) \<Rightarrow>
        has_fastapi_decorator router_name fn = Inr False \<and> fn_module fn = module_name
        \<and> \<not> startswith name ''noroute_'')"

definition route_for :: "string list option \<Rightarrow> 'x \<Rightarrow> string \<times> func \<Rightarrow> 'x route" where
  "route_for methods args member =
     \<lparr>route_path = ''/'' @ replace_str (fn_name (snd member)) CHR ''_'' CHR ''-'',
      route_handler = snd member,
      route_methods = map upper (case methods of None \<Rightarrow> [''get''] | Some ms \<Rightarrow> ms),
      route_extra = args\<rparr>"


definition dotted_identifier :: "string \<Rightarrow> bool" where
  \<comment> \<open>the text that \<^verbatim>\<open>\w[\w\.]*\<close> matches in full\<close>
  "dotted_identifier s = (case s of [] \<Rightarrow> False | c # cs \<Rightarrow> is_word c \<and> list_all name_char cs)"

text \<open>
  The decorator lines as the specification words them: of the lines of the text before the
  keyword, stripped of surrounding white space, those that are not empty and begin with the
  marker. \<open>nonblank\<close> is the stripped lines that are not empty.
\<close>

definition decorator_lines_spec :: "string \<Rightarrow> string list" where
  "decorator_lines_spec text =
     [strip line. line \<leftarrow> splitlines text, strip line \<noteq> [], hd (strip line) = CHR ''@'']"

definition nonblank :: "string list \<Rightarrow> string list" where
  "nonblank ls = filter (\<lambda>l. l \<noteq> []) (map strip ls)"

subsection \<open>Example modules\<close>

definition no_validation :: "unit validate" where
  \<comment> \<open>a router that accepts every route\<close>
  "no_validation rs r = None"

definition empty_store :: "unit store" where
  "empty_store R = []"

definition fetch_a :: func where
  "fetch_a = \<lparr>fn_id = 1, fn_name = ''fetch_a'', fn_module = ''app'',
     fn_source = Inr (''async def fetch_a():'' @ [CHR 0x0A] @ ''    return 1'' @ [CHR 0x0A])\<rparr>"

definition noroute_fetch_b :: func where
  "noroute_fetch_b = \<lparr>fn_id = 2, fn_name = ''noroute_fetch_b'', fn_module = ''app'',
     fn_source =
       Inr (''async def noroute_fetch_b():'' @ [CHR 0x0A] @ ''    return 2'' @ [CHR 0x0A])\<rparr>"

definition fetch_c :: func where
  \<open>fetch_c = \<lparr>fn_id = 3, fn_name = ''fetch_c'', fn_module = ''app'',
     fn_source =
       Inr (''@router2.get("/custom")'' @ [CHR 0x0A] @ ''async def fetch_c():'' @ [CHR 0x0A]
            @ ''    return 3'' @ [CHR 0x0A])\<rparr>\<close>

definition example_module :: module where
  "example_module = \<lparr>mod_name = ''app'', mod_vars =
     [(''router'', APIRouter 0), (''noroute_fetch_b'', Coroutine noroute_fetch_b),
      (''fetch_a'', Coroutine fetch_a)]\<rparr>"

definition routed_module :: module where
  "routed_module = \<lparr>mod_name = ''app'', mod_vars =
     [(''router'', APIRouter 0), (''fetch_c'', Coroutine fetch_c),
      (''fetch_a'', Coroutine fetch_a)]\<rparr>"

definition no_router_module :: module where
  "no_router_module = \<lparr>mod_name = ''app'', mod_vars =
     [(''fetch_a'', Coroutine fetch_a), (''limit'', Other)]\<rparr>"

definition fetch_d :: func where
  "fetch_d = \<lparr>fn_id = 4, fn_name = ''fetch_d'', fn_module = ''app'',
     fn_source = Inr (''async def fetch_d():'' @ [CHR 0x0A] @ ''    return 4'' @ [CHR 0x0A])\<rparr>"

definition zeta :: func where
  "zeta = \<lparr>fn_id = 5, fn_name = ''zeta'', fn_module = ''app'',
     fn_source = Inr (''async def zeta():'' @ [CHR 0x0A] @ ''    return 5'' @ [CHR 0x0A])\<rparr>"

definition noroute_dyn :: func where
  \<comment> \<open>a function made at run time and imported from another module: no source text\<close>
  "noroute_dyn = \<lparr>fn_id = 6, fn_name = ''noroute_dyn'', fn_module = ''plugins'',
     fn_source = Inl (SourceError ''could not get source code'')\<rparr>"

definition rejecting_validation :: "unit validate" where
  \<comment> \<open>a router that refuses the path \<^verbatim>\<open>/fetch-d\<close>\<close>
  "rejecting_validation rs r =
     (if route_path r = ''/fetch-d'' then Some (RouterError ''invalid route'') else None)"

definition abort_module :: module where
  "abort_module = \<lparr>mod_name = ''app'', mod_vars =
     [(''router'', APIRouter 0), (''zeta'', Coroutine zeta), (''fetch_d'', Coroutine fetch_d),
      (''fetch_a'', Coroutine fetch_a)]\<rparr>"

definition dynamic_module :: module where
  "dynamic_module = \<lparr>mod_name = ''app'', mod_vars =
     [(''router'', APIRouter 0), (''zeta'', Coroutine zeta),
      (''noroute_dyn'', Coroutine noroute_dyn), (''fetch_a'', Coroutine fetch_a)]\<rparr>"

definition fetch_e :: func where
  \<open>fetch_e = \<lparr>fn_id = 7, fn_name = ''fetch_e'', fn_module = ''app'',
     fn_source =
       Inr (''    @router.get("/e")'' @ [CHR 0x0A] @ [CHR 0x0A] @ ''    # cached'' @ [CHR 0x0A]
            @ ''    @cache  '' @ [CHR 0x0A] @ ''    async def fetch_e(self):''
            @ [CHR 0x0A] @ ''        return 5'' @ [CHR 0x0A])\<rparr>\<close>

definition noroute_hidden :: func where
  "noroute_hidden = \<lparr>fn_id = 8, fn_name = ''noroute_hidden'', fn_module = ''app'',
     fn_source =
       Inr (''async def noroute_hidden():'' @ [CHR 0x0A] @ ''    return 8'' @ [CHR 0x0A])\<rparr>"

definition alias_module :: module where
  \<comment> \<open>the module binds one function twice: \<^verbatim>\<open>public = noroute_hidden\<close>\<close>
  "alias_module = \<lparr>mod_name = ''app'', mod_vars =
     [(''router'', APIRouter 0), (''noroute_hidden'', Coroutine noroute_hidden),
      (''public'', Coroutine noroute_hidden)]\<rparr>"

definition shadowed :: func where
  \<comment> \<open>a routed function whose first decorator holds the text \<^verbatim>\<open>def\<close> and a space\<close>
  \<open>shadowed = \<lparr>fn_id = 9, fn_name = ''shadowed'', fn_module = ''app'',
     fn_source =
       Inr (''@tag("undef x")'' @ [CHR 0x0A] @ ''@router.get("/y")'' @ [CHR 0x0A]
            @ ''async def shadowed():'' @ [CHR 0x0A] @ ''    return 9'' @ [CHR 0x0A])\<rparr>\<close>

definition shadowed_module :: module where
  "shadowed_module = \<lparr>mod_name = ''app'', mod_vars =
     [(''router'', APIRouter 0), (''shadowed'', Coroutine shadowed)]\<rparr>"

definition tabbed :: func where
  \<comment> \<open>no decorator; a tab follows the keyword; the docstring has a line that begins
      with the marker\<close>
  \<open>tabbed = \<lparr>fn_id = 10, fn_name = ''tabbed'', fn_module = ''app'',
     fn_source =
       Inr (''async def'' @ [CHR 0x09] @ ''tabbed():'' @ [CHR 0x0A]
            @ ''    """Fetch.'' @ [CHR 0x0A] @ [CHR 0x0A]
            @ ''    @see other'' @ [CHR 0x0A]
            @ ''    """'' @ [CHR 0x0A] @ ''    return 10'' @ [CHR 0x0A])\<rparr>\<close>

section \<open>Properties\<close>

subsection \<open>The loop of the registrar\<close>

lemma auto_route_cases:
  "auto_route V R f ms ex st =
     (case V (st R) (route_for ms ex (n, f)) of
        Some e \<Rightarrow> (Some e, st)
      | None \<Rightarrow> (None, st(R := st R @ [route_for ms ex (n, f)])))"
  by (simp add: auto_route_def add_api_route_def route_for_def Let_def split: option.splits)

lemma register_member_cases:
  "register_member V rn R mn ms ex x st =
     (case has_fastapi_decorator rn (snd x) of
        Inl e \<Rightarrow> (Some e, st)
      | Inr b \<Rightarrow>
          if eligible rn mn x
          then (case V (st R) (route_for ms ex x) of
                  Some e \<Rightarrow> (Some e, st)
                | None \<Rightarrow> (None, st(R := st R @ [route_for ms ex x])))
          else (None, st))"
proof (cases x)
  case (Pair n f)
  show ?thesis
  proof (cases "has_fastapi_decorator rn f")
    case (Inl e)
    then show ?thesis unfolding Pair by (simp add: register_member_def)
  next
    case (Inr b)
    then show ?thesis unfolding Pair
      by (simp add: register_member_def eligible_def auto_route_cases [where n = n])
  qed
qed

lemma register_member_ok:
  "register_member V rn R mn ms ex x st = (None, st') \<Longrightarrow>
     st' = st(R := st R @ map (route_for ms ex) (filter (eligible rn mn) [x]))"
  by (auto simp: register_member_cases split: sum.splits if_splits option.splits)

lemma register_member_fail:
  "register_member V rn R mn ms ex x st = (Some e, st') \<Longrightarrow> st' = st"
  by (auto simp: register_member_cases split: sum.splits if_splits option.splits)

lemma register_loop_append:
  "register_loop V rn R mn ms ex (xs @ ys) st =
     (case register_loop V rn R mn ms ex xs st of
        (Some e, st') \<Rightarrow> (Some e, st')
      | (None, st') \<Rightarrow> register_loop V rn R mn ms ex ys st')"
  by (induction xs arbitrary: st) (auto split: prod.splits option.splits)

lemma register_loop_ok:
  "register_loop V rn R mn ms ex xs st = (None, st') \<Longrightarrow>
     st' = st(R := st R @ map (route_for ms ex) (filter (eligible rn mn) xs))"
proof (induction xs arbitrary: st)
  case Nil
  then show ?case by simp
next
  case (Cons x xs)
  from Cons.prems obtain st1 where
    m: "register_member V rn R mn ms ex x st = (None, st1)" and
    l: "register_loop V rn R mn ms ex xs st1 = (None, st')"
    by (simp split: prod.splits option.splits)
  have 1: "st1 = st(R := st R @ map (route_for ms ex) (filter (eligible rn mn) [x]))"
    by (rule register_member_ok [OF m])
  have 2: "st' = st1(R := st1 R @ map (route_for ms ex) (filter (eligible rn mn) xs))"
    by (rule Cons.IH [OF l])
  have 3: "st1 R = st R @ map (route_for ms ex) (filter (eligible rn mn) [x])"
    unfolding 1 by simp
  have 4: "st1(R := st1 R @ map (route_for ms ex) (filter (eligible rn mn) xs))
      = st(R := st1 R @ map (route_for ms ex) (filter (eligible rn mn) xs))"
    unfolding 1 by (rule fun_upd_upd)
  have 5: "map (route_for ms ex) (filter (eligible rn mn) [x]) @ map (route_for ms ex) (filter (eligible rn mn) xs)
      = map (route_for ms ex) (filter (eligible rn mn) (x # xs))"
    by simp
  have 6: "st1 R @ map (route_for ms ex) (filter (eligible rn mn) xs)
      = st R @ map (route_for ms ex) (filter (eligible rn mn) (x # xs))"
    unfolding 3 append_assoc 5 ..
  have "st' = st(R := st1 R @ map (route_for ms ex) (filter (eligible rn mn) xs))"
    using 2 4 by (rule trans)
  then show ?case unfolding 6 .
qed

lemma register_loop_fail:
  "register_loop V rn R mn ms ex xs st = (Some e, st') \<Longrightarrow>
     \<exists>pre x post. xs = pre @ x # post
        \<and> register_loop V rn R mn ms ex pre st = (None, st')
        \<and> register_member V rn R mn ms ex x st' = (Some e, st')"
proof (induction xs arbitrary: st)
  case Nil
  then show ?case by simp
next
  case (Cons x xs)
  show ?case
  proof (cases "register_member V rn R mn ms ex x st")
    case (Pair r st1)
    show ?thesis
    proof (cases r)
      case None
      with Pair Cons.prems have "register_loop V rn R mn ms ex xs st1 = (Some e, st')" by simp
      from Cons.IH [OF this] obtain pre y post where
        a: "xs = pre @ y # post" and b: "register_loop V rn R mn ms ex pre st1 = (None, st')" and
        c: "register_member V rn R mn ms ex y st' = (Some e, st')" by blast
      from a have a': "x # xs = (x # pre) @ y # post" by simp
      from b Pair None have b': "register_loop V rn R mn ms ex (x # pre) st = (None, st')" by simp
      from a' b' c show ?thesis by blast
    next
      case (Some e')
      with Pair Cons.prems have eq: "e' = e" "st1 = st'" by simp_all
      from Pair Some eq have f: "register_member V rn R mn ms ex x st = (Some e, st')" by simp
      from register_member_fail [OF f] have s: "st' = st" .
      have a: "x # xs = [] @ x # xs" by simp
      have b: "register_loop V rn R mn ms ex [] st = (None, st')" using s by simp
      have c: "register_member V rn R mn ms ex x st' = (Some e, st')" using f s by simp
      from a b c show ?thesis by blast
    qed
  qed
qed

lemma register_loop_added:
  assumes "register_loop V rn R mn ms ex xs st = (err, st')"
  shows "\<exists>ys zs. xs = ys @ zs \<and> (err = None \<longrightarrow> zs = [])
           \<and> st' = st(R := st R @ map (route_for ms ex) (filter (eligible rn mn) ys))"
proof (cases err)
  case None
  with assms have "register_loop V rn R mn ms ex xs st = (None, st')" by simp
  from register_loop_ok [OF this]
  have "xs = xs @ [] \<and> (err = None \<longrightarrow> [] = [])
      \<and> st' = st(R := st R @ map (route_for ms ex) (filter (eligible rn mn) xs))" by simp
  then show ?thesis by blast
next
  case (Some e)
  with assms have "register_loop V rn R mn ms ex xs st = (Some e, st')" by simp
  from register_loop_fail [OF this]
  obtain pre x post where a: "xs = pre @ x # post"
    and b: "register_loop V rn R mn ms ex pre st = (None, st')"
    by blast
  from register_loop_ok [OF b] a Some
  have "xs = pre @ (x # post) \<and> (err = None \<longrightarrow> x # post = [])
      \<and> st' = st(R := st R @ map (route_for ms ex) (filter (eligible rn mn) pre))" by simp
  then show ?thesis by blast
qed

subsection \<open>The claims about the registrar\<close>

lemma routes_added_upd:
  "routes_added st (st(R := st R @ xs)) R' = (if R' = R then xs else [])"
  by (simp add: routes_added_def)

lemma register_routes_added:
  assumes run: "register_functions_as_routes V m ms ex st = (err, st')"
    and r: "r \<in> set (routes_added st st' R)"
  shows "\<exists>rn rest x. find_routers_in_module m = (rn, R) # rest \<and> x \<in> set (getmembers m)
           \<and> eligible rn (mod_name m) x \<and> r = route_for ms ex x"
proof (cases "find_routers_in_module m")
  case Nil
  with run have "st' = st" by (simp add: register_functions_as_routes_def)
  with r show ?thesis by (simp add: routes_added_def)
next
  case (Cons p rest)
  obtain rn R0 where p: "p = (rn, R0)" by (cases p)
  from run Cons p
  have "register_loop V rn R0 (mod_name m) ms ex (getmembers m) st = (err, st')"
    by (simp add: register_functions_as_routes_def)
  from register_loop_added [OF this] obtain ys zs where
    ys: "getmembers m = ys @ zs" and
    st': "st' = st(R0 := st R0 @ map (route_for ms ex) (filter (eligible rn (mod_name m)) ys))"
    by blast
  from r have mem: "r \<in> set (if R = R0 then map (route_for ms ex) (filter (eligible rn (mod_name m)) ys) else [])"
    unfolding st' routes_added_upd .
  then have RR: "R = R0" by (cases "R = R0") simp_all
  with mem obtain x where x: "x \<in> set ys" "eligible rn (mod_name m) x" "r = route_for ms ex x"
    by auto
  from x(1) ys have "x \<in> set (getmembers m)" by simp
  with x Cons p RR
  have "find_routers_in_module m = (rn, R) # rest \<and> x \<in> set (getmembers m)
           \<and> eligible rn (mod_name m) x \<and> r = route_for ms ex x" by simp
  then show ?thesis by blast
qed

text \<open>
  Claim C1. Every route that a call of the registrar adds to a router has as its path a
  slash followed by the name of its handler with each underscore replaced by a hyphen.
\<close>

theorem registered_path:
  assumes "register_functions_as_routes V m ms ex st = (err, st')"
    and "r \<in> set (routes_added st st' R)"
  shows "route_path r = ''/'' @ replace_str (fn_name (route_handler r)) CHR ''_'' CHR ''-''"
proof -
  from register_routes_added [OF assms] obtain x where "r = route_for ms ex x" by blast
  then show ?thesis by (simp add: route_for_def)
qed

theorem registered_path_witness:
  "\<lparr>route_path = ''/fetch-a'', route_handler = fetch_a, route_methods = [''GET''], route_extra = ()\<rparr>
     \<in> set (routes_added empty_store
         (snd (register_functions_as_routes no_validation example_module default_methods ()
            empty_store)) 0)
   \<and> ''/fetch-a'' = ''/'' @ replace_str (fn_name fetch_a) CHR ''_'' CHR ''-''"
proof -
  let ?res = "register_functions_as_routes no_validation example_module default_methods ()
    empty_store"
  let ?r = "\<lparr>route_path = ''/fetch-a'', route_handler = fetch_a, route_methods = [''GET''],
    route_extra = ()\<rparr>"
  have run: "?res = (fst ?res, snd ?res)" by simp
  have mem: "?r \<in> set (routes_added empty_store (snd ?res) 0)" by code_simp
  from registered_path [OF run mem] mem show ?thesis by simp
qed

text \<open>
  Claim C2, as amended. The test of line 79 is on the attribute name of each binding. A
  coroutine function every one of whose attribute names in the module begins with
  \<^verbatim>\<open>noroute_\<close> is the handler of no route that the registrar adds, whatever its
  decorators and its defining module, and whether the call returns or raises.
\<close>

theorem noroute_never_registered:
  assumes run: "register_functions_as_routes V m ms ex st = (err, st')"
    and names: "\<forall>(n, g) \<in> set (getmembers m). g = f \<longrightarrow> startswith n ''noroute_''"
  shows "f \<notin> route_handler ` set (routes_added st st' R)"
proof
  assume "f \<in> route_handler ` set (routes_added st st' R)"
  then obtain r where r: "r \<in> set (routes_added st st' R)" and f: "f = route_handler r"
    by blast
  from register_routes_added [OF run r] obtain rn x where
    x: "x \<in> set (getmembers m)" "eligible rn (mod_name m) x" "r = route_for ms ex x" by blast
  obtain n g where ng: "x = (n, g)" by (cases x)
  with x(3) f have "g = f" by (simp add: route_for_def)
  with names x(1) ng have "startswith n ''noroute_''" by blast
  with x(2) ng show False by (simp add: eligible_def)
qed

theorem noroute_never_registered_witness:
  "getmembers example_module = [(''fetch_a'', fetch_a), (''noroute_fetch_b'', noroute_fetch_b)]
   \<and> fetch_a \<noteq> noroute_fetch_b
   \<and> startswith ''noroute_fetch_b'' ''noroute_''
   \<and> noroute_fetch_b \<notin> route_handler ` set (routes_added empty_store
         (snd (register_functions_as_routes no_validation example_module default_methods ()
            empty_store)) 0)"
proof -
  let ?res = "register_functions_as_routes no_validation example_module default_methods ()
    empty_store"
  have run: "?res = (fst ?res, snd ?res)" by simp
  have members: "getmembers example_module
      = [(''fetch_a'', fetch_a), (''noroute_fetch_b'', noroute_fetch_b)]" by code_simp
  have ne: "fetch_a \<noteq> noroute_fetch_b" by code_simp
  have pre: "startswith ''noroute_fetch_b'' ''noroute_''" by code_simp
  have names: "\<forall>(n, g) \<in> set (getmembers example_module).
      g = noroute_fetch_b \<longrightarrow> startswith n ''noroute_''"
    unfolding members using ne pre by simp
  from noroute_never_registered [OF run names] members ne pre show ?thesis by simp
qed

text \<open>
  The claim as first worded fails: a function with an attribute name that begins with
  \<^verbatim>\<open>noroute_\<close> and a second attribute name without the prefix is registered through the
  second name, at the path made from its \<^verbatim>\<open>__name__\<close>.
\<close>

theorem noroute_alias_counterexample:
  "getmembers alias_module
     = [(''noroute_hidden'', noroute_hidden), (''public'', noroute_hidden)]
   \<and> startswith ''noroute_hidden'' ''noroute_''
   \<and> fst (register_functions_as_routes no_validation alias_module default_methods ()
        empty_store) = None
   \<and> routes_added empty_store
        (snd (register_functions_as_routes no_validation alias_module default_methods ()
           empty_store)) 0
      = [\<lparr>route_path = ''/noroute-hidden'', route_handler = noroute_hidden,
           route_methods = [''GET''], route_extra = ()\<rparr>]"
  by code_simp

lemma no_routers:
  "\<forall>x \<in> set xs. \<forall>r. snd x \<noteq> APIRouter r \<Longrightarrow> [(name, r). (name, APIRouter r) \<leftarrow> xs] = []"
  by (induction xs) (auto split: obj.splits)

text \<open>
  Claim C3. For a module none of whose attributes is a router, the router finder returns
  the empty mapping, and the registrar raises \<^verbatim>\<open>StopIteration\<close> and leaves every router
  as it was.
\<close>

theorem no_router_stop_iteration:
  assumes "\<forall>x \<in> set (mod_vars m). \<forall>r. snd x \<noteq> APIRouter r"
  shows "find_routers_in_module m = []
    \<and> register_functions_as_routes V m ms ex st = (Some StopIteration, st)"
proof -
  from no_routers [OF assms] have "find_routers_in_module m = []"
    by (simp add: find_routers_in_module_def)
  then show ?thesis by (simp add: register_functions_as_routes_def)
qed

theorem no_router_stop_iteration_witness:
  "map snd (mod_vars no_router_module) = [Coroutine fetch_a, Other]
   \<and> find_routers_in_module no_router_module = []
   \<and> register_functions_as_routes no_validation no_router_module default_methods () empty_store
       = (Some StopIteration, empty_store)"
proof -
  have vars: "map snd (mod_vars no_router_module) = [Coroutine fetch_a, Other]"
    by (simp add: no_router_module_def)
  have h: "\<forall>x \<in> set (mod_vars no_router_module). \<forall>r. snd x \<noteq> APIRouter r"
    by (simp add: no_router_module_def)
  from no_router_stop_iteration [OF h] vars show ?thesis by simp
qed

lemma any_name_startswith_False:
  "any_name_startswith rn ds = Inr False \<Longrightarrow> d \<in> set ds \<Longrightarrow> d = SimpleNamespace nm as
     \<Longrightarrow> \<not> startswith nm rn"
  by (induction ds) (auto split: sum.splits if_splits)

text \<open>
  What the registrar guarantees is relative to the extractor: a function one of whose
  extracted decorator lines parses to a name that starts with the attribute name of the
  router found is the handler of no route that the registrar adds.
\<close>

lemma extracted_decorator_not_registered:
  assumes routers: "find_routers_in_module m = (rn, R) # rest"
    and run: "register_functions_as_routes V m ms ex st = (err, st')"
    and lines: "get_decorator_lines f = Inr ls"
    and l: "l \<in> set ls"
    and parsed: "parse_decorator_line l = SimpleNamespace nm as"
    and pre: "startswith nm rn"
  shows "f \<notin> route_handler ` set (routes_added st st' R)"
proof
  assume "f \<in> route_handler ` set (routes_added st st' R)"
  then obtain r where r: "r \<in> set (routes_added st st' R)" and f: "f = route_handler r" by blast
  from register_routes_added [OF run r] routers obtain x where
    x: "eligible rn (mod_name m) x" "r = route_for ms ex x" by auto
  obtain n g where ng: "x = (n, g)" by (cases x)
  with x(2) f have "g = f" by (simp add: route_for_def)
  with x(1) ng have "has_fastapi_decorator rn f = Inr False" by (simp add: eligible_def)
  with lines have a: "any_name_startswith rn (map parse_decorator_line ls) = Inr False"
    by (simp add: has_fastapi_decorator_def get_decorators_def)
  from l have "parse_decorator_line l \<in> set (map parse_decorator_line ls)" by simp
  from any_name_startswith_False [OF a this parsed] pre show False by simp
qed

lemma extracted_decorator_not_registered_example:
  \<open>find_routers_in_module routed_module = (''router'', 0) # []
   \<and> get_decorator_lines fetch_c = Inr [''@router2.get("/custom")'']
   \<and> parse_decorator_line ''@router2.get("/custom")''
       = SimpleNamespace ''router2.get'' [''"/custom"'']
   \<and> startswith ''router2.get'' ''router''
   \<and> fetch_c \<notin> route_handler ` set (routes_added empty_store
         (snd (register_functions_as_routes no_validation routed_module default_methods ()
            empty_store)) 0)\<close>
proof -
  let ?res = "register_functions_as_routes no_validation routed_module default_methods ()
    empty_store"
  have routers: "find_routers_in_module routed_module = (''router'', 0) # []" by code_simp
  have run: "?res = (fst ?res, snd ?res)" by simp
  have lines: \<open>get_decorator_lines fetch_c = Inr [''@router2.get("/custom")'']\<close> by code_simp
  have l: \<open>''@router2.get("/custom")'' \<in> set [''@router2.get("/custom")'']\<close> by simp
  have parsed: \<open>parse_decorator_line ''@router2.get("/custom")''
       = SimpleNamespace ''router2.get'' [''"/custom"'']\<close> by code_simp
  have pre: "startswith ''router2.get'' ''router''" by code_simp
  from extracted_decorator_not_registered [OF routers run lines l parsed pre] routers lines parsed pre
  show ?thesis by simp
qed

text \<open>
  Claim C4. A function that carries a decorator whose name starts with the attribute name
  of the router is to get no route. The code misses this where an earlier decorator holds
  the text \<^verbatim>\<open>def\<close> followed by a space: \<^verbatim>\<open>find\<close> of line 28 stops inside that decorator,
  the router's decorator below it is never extracted, and the function is registered.
\<close>

theorem shadowed_decorator_registered:
  \<open>find_routers_in_module shadowed_module = [(''router'', 0)]
   \<and> fn_source shadowed =
       Inr (''@tag("undef x")'' @ [CHR 0x0A] @ ''@router.get("/y")'' @ [CHR 0x0A]
            @ ''async def shadowed():'' @ [CHR 0x0A] @ ''    return 9'' @ [CHR 0x0A])
   \<and> parse_decorator_line ''@router.get("/y")'' = SimpleNamespace ''router.get'' [''"/y"'']
   \<and> startswith ''router.get'' ''router''
   \<and> get_decorator_lines shadowed = Inr [''@tag("un'']
   \<and> has_fastapi_decorator ''router'' shadowed = Inr False
   \<and> fst (register_functions_as_routes no_validation shadowed_module default_methods ()
        empty_store) = None
   \<and> routes_added empty_store
        (snd (register_functions_as_routes no_validation shadowed_module default_methods ()
           empty_store)) 0
      = [\<lparr>route_path = ''/shadowed'', route_handler = shadowed, route_methods = [''GET''],
           route_extra = ()\<rparr>]\<close>
  by code_simp

lemma route_for_case:
  "map (route_for ms ex) xs =
     map (\<lambda>(n, f). \<lparr>route_path = ''/'' @ replace_str (fn_name f) CHR ''_'' CHR ''-'',
            route_handler = f,
            route_methods = map upper (case ms of None \<Rightarrow> [''get''] | Some l \<Rightarrow> l),
            route_extra = ex\<rparr>) xs"
  by (simp add: route_for_def case_prod_beta)

lemma upper_get: "upper ''get'' = ''GET''"
  by code_simp

lemma register_functions_as_routes_loop:
  "find_routers_in_module m = (rn, R) # rest \<Longrightarrow>
     register_functions_as_routes V m ms ex st =
       register_loop V rn R (mod_name m) ms ex (getmembers m) st"
  by (simp add: register_functions_as_routes_def)

text \<open>
  Claim C7. A call that returns has added to the router, for each eligible member in the
  order of the attribute names, one route whose methods are the given method names in
  upper case, and nothing else. With the default methods, a module whose coroutine
  functions are \<^verbatim>\<open>fetch_a\<close> and \<^verbatim>\<open>noroute_fetch_b\<close>, the first defined there without a
  router decorator, gets the single new route \<^verbatim>\<open>/fetch-a\<close> for \<^verbatim>\<open>GET\<close>.
\<close>

theorem registered_under_methods:
  assumes routers: "find_routers_in_module m = (rn, R) # rest"
  shows "(register_functions_as_routes V m ms ex st = (None, st') \<longrightarrow>
            routes_added st st' R =
              map (\<lambda>(n, f). \<lparr>route_path = ''/'' @ replace_str (fn_name f) CHR ''_'' CHR ''-'',
                     route_handler = f,
                     route_methods = map upper (case ms of None \<Rightarrow> [''get''] | Some l \<Rightarrow> l),
                     route_extra = ex\<rparr>)
                (filter (eligible rn (mod_name m)) (getmembers m)))
    \<and> (getmembers m = [(''fetch_a'', fa), (''noroute_fetch_b'', fb)]
        \<and> fn_name fa = ''fetch_a'' \<and> fn_module fa = mod_name m
        \<and> has_fastapi_decorator rn fa = Inr False \<and> has_fastapi_decorator rn fb = Inr b
        \<and> V (st R) \<lparr>route_path = ''/fetch-a'', route_handler = fa, route_methods = [''GET''],
              route_extra = ex\<rparr> = None \<longrightarrow>
          register_functions_as_routes V m default_methods ex st =
            (None, st(R := st R @ [\<lparr>route_path = ''/fetch-a'', route_handler = fa,
                route_methods = [''GET''], route_extra = ex\<rparr>])))"
proof (intro conjI impI)
  assume "register_functions_as_routes V m ms ex st = (None, st')"
  then have "register_loop V rn R (mod_name m) ms ex (getmembers m) st = (None, st')"
    by (simp only: register_functions_as_routes_loop [OF routers])
  from register_loop_ok [OF this]
  have "routes_added st st' R =
      map (route_for ms ex) (filter (eligible rn (mod_name m)) (getmembers m))"
    by (simp add: routes_added_upd)
  then show "routes_added st st' R =
      map (\<lambda>(n, f). \<lparr>route_path = ''/'' @ replace_str (fn_name f) CHR ''_'' CHR ''-'',
             route_handler = f,
             route_methods = map upper (case ms of None \<Rightarrow> [''get''] | Some l \<Rightarrow> l),
             route_extra = ex\<rparr>)
        (filter (eligible rn (mod_name m)) (getmembers m))"
    by (simp only: route_for_case)
next
  let ?r = "\<lparr>route_path = ''/fetch-a'', route_handler = fa, route_methods = [''GET''],
    route_extra = ex\<rparr>"
  assume a: "getmembers m = [(''fetch_a'', fa), (''noroute_fetch_b'', fb)]
        \<and> fn_name fa = ''fetch_a'' \<and> fn_module fa = mod_name m
        \<and> has_fastapi_decorator rn fa = Inr False \<and> has_fastapi_decorator rn fb = Inr b
        \<and> V (st R) ?r = None"
  have r: "route_for default_methods ex (''fetch_a'', fa) = ?r"
    using a by (simp add: route_for_def default_methods_def replace_str_def upper_get)
  have ea: "eligible rn (mod_name m) (''fetch_a'', fa)"
    using a by (simp add: eligible_def startswith_def)
  have eb: "\<not> eligible rn (mod_name m) (''noroute_fetch_b'', fb)"
    by (simp add: eligible_def startswith_def)
  have 1: "register_member V rn R (mod_name m) default_methods ex (''fetch_a'', fa) st
      = (None, st(R := st R @ [?r]))"
    using a ea by (simp add: register_member_cases r)
  have 2: "register_member V rn R (mod_name m) default_methods ex (''noroute_fetch_b'', fb)
      (st(R := st R @ [?r])) = (None, st(R := st R @ [?r]))"
    using a eb by (simp add: register_member_cases del: fun_upd_apply)
  show "register_functions_as_routes V m default_methods ex st = (None, st(R := st R @ [?r]))"
    using a by (simp add: register_functions_as_routes_loop [OF routers] 1 2 del: fun_upd_apply)
qed


theorem registered_under_methods_witness:
  "find_routers_in_module example_module = [(''router'', 0)]
   \<and> getmembers example_module = [(''fetch_a'', fetch_a), (''noroute_fetch_b'', noroute_fetch_b)]
   \<and> fst (register_functions_as_routes no_validation example_module (Some [''get'', ''Post''])
         () empty_store) = None
   \<and> routes_added empty_store
         (snd (register_functions_as_routes no_validation example_module
            (Some [''get'', ''Post'']) () empty_store)) 0
       = [\<lparr>route_path = ''/fetch-a'', route_handler = fetch_a,
            route_methods = [''GET'', ''POST''], route_extra = ()\<rparr>]
   \<and> register_functions_as_routes no_validation example_module default_methods () empty_store
       = (None, empty_store(0 := empty_store 0 @ [\<lparr>route_path = ''/fetch-a'',
            route_handler = fetch_a, route_methods = [''GET''], route_extra = ()\<rparr>]))"
proof -
  let ?res = "register_functions_as_routes no_validation example_module
    (Some [''get'', ''Post'']) () empty_store"
  have routers: "find_routers_in_module example_module = (''router'', 0) # []" by code_simp
  have members: "getmembers example_module
      = [(''fetch_a'', fetch_a), (''noroute_fetch_b'', noroute_fetch_b)]" by code_simp
  have ok: "fst ?res = None" by code_simp
  then have run: "?res = (None, snd ?res)" by (metis prod.collapse)
  have routes: "map (\<lambda>(n, f). \<lparr>route_path = ''/'' @ replace_str (fn_name f) CHR ''_'' CHR ''-'',
         route_handler = f,
         route_methods = map upper (case Some [''get'', ''Post''] of None \<Rightarrow> [''get''] | Some l \<Rightarrow> l),
         route_extra = ()\<rparr>)
      (filter (eligible ''router'' (mod_name example_module)) (getmembers example_module))
    = [\<lparr>route_path = ''/fetch-a'', route_handler = fetch_a,
            route_methods = [''GET'', ''POST''], route_extra = ()\<rparr>]" by code_simp
  have h: "getmembers example_module = [(''fetch_a'', fetch_a), (''noroute_fetch_b'', noroute_fetch_b)]
        \<and> fn_name fetch_a = ''fetch_a'' \<and> fn_module fetch_a = mod_name example_module
        \<and> has_fastapi_decorator ''router'' fetch_a = Inr False
        \<and> has_fastapi_decorator ''router'' noroute_fetch_b = Inr False
        \<and> no_validation (empty_store 0) \<lparr>route_path = ''/fetch-a'', route_handler = fetch_a,
              route_methods = [''GET''], route_extra = ()\<rparr> = None" by code_simp
  from registered_under_methods [OF routers, of no_validation "Some [''get'', ''Post'']" "()"
      empty_store "snd ?res" fetch_a noroute_fetch_b False]
    run h routes routers members ok
  show ?thesis by simp
qed

lemma source_error_raised:
  "fn_source f = Inl e \<Longrightarrow> register_member V rn R mn ms ex (n, f) st = (Some e, st)"
  by (simp add: register_member_def has_fastapi_decorator_def get_decorators_def
      get_decorator_lines_def)

lemma register_loop_abort:
  assumes "register_loop V rn R mn ms ex pre st = (None, st1)"
    and "register_member V rn R mn ms ex x st1 = (Some e, st2)"
  shows "register_loop V rn R mn ms ex (pre @ x # post) st = (Some e, st2)"
  using assms by (simp add: register_loop_append)

lemma register_loop_member_ok:
  assumes "register_loop V rn R mn ms ex xs st = (None, st')" and "x \<in> set xs"
  shows "\<exists>st1 st2. register_member V rn R mn ms ex x st1 = (None, st2)"
  using assms
proof (induction xs arbitrary: st)
  case Nil
  then show ?case by simp
next
  case (Cons y ys)
  from Cons.prems(1) obtain st1 where
    m: "register_member V rn R mn ms ex y st = (None, st1)" and
    l: "register_loop V rn R mn ms ex ys st1 = (None, st')"
    by (simp split: prod.splits option.splits)
  show ?case
  proof (cases "x = y")
    case True
    with m show ?thesis by blast
  next
    case False
    with Cons.prems(2) have "x \<in> set ys" by simp
    from Cons.IH [OF l this] show ?thesis .
  qed
qed

text \<open>
  Claim C8. When the registration call of the router raises for an eligible member, the
  registrar raises that same error; the router keeps the routes registered for the members
  before it and gets none for that member or for any member after it.
\<close>

theorem registration_error_aborts:
  assumes routers: "find_routers_in_module m = (rn, R) # rest"
    and members: "getmembers m = pre @ (n, f) # post"
    and before: "register_loop V rn R (mod_name m) ms ex pre st = (None, st1)"
    and elig: "eligible rn (mod_name m) (n, f)"
    and raised: "auto_route V R f ms ex st1 = (Some e, st2)"
  shows "register_functions_as_routes V m ms ex st = (Some e, st2)
    \<and> st2 = st1
    \<and> routes_added st st2 R
        = map (route_for ms ex) (filter (eligible rn (mod_name m)) pre)"
proof -
  from elig obtain b where "has_fastapi_decorator rn f = Inr b" "\<not> b"
    by (auto simp: eligible_def)
  with elig raised
  have m: "register_member V rn R (mod_name m) ms ex (n, f) st1 = (Some e, st2)"
    by (simp add: register_member_def eligible_def)
  from register_member_fail [OF m] have eq: "st2 = st1" .
  from register_loop_abort [OF before m]
  have run: "register_functions_as_routes V m ms ex st = (Some e, st2)"
    by (simp only: register_functions_as_routes_loop [OF routers] members)
  from register_loop_ok [OF before]
  have "routes_added st st1 R = map (route_for ms ex) (filter (eligible rn (mod_name m)) pre)"
    by (simp add: routes_added_upd)
  with run eq show ?thesis by simp
qed

theorem registration_error_aborts_witness:
  "find_routers_in_module abort_module = [(''router'', 0)]
   \<and> getmembers abort_module = [(''fetch_a'', fetch_a)] @ (''fetch_d'', fetch_d) # [(''zeta'', zeta)]
   \<and> fst (register_functions_as_routes rejecting_validation abort_module default_methods ()
        empty_store) = Some (RouterError ''invalid route'')
   \<and> routes_added empty_store
        (snd (register_functions_as_routes rejecting_validation abort_module default_methods ()
           empty_store)) 0
      = [\<lparr>route_path = ''/fetch-a'', route_handler = fetch_a, route_methods = [''GET''],
           route_extra = ()\<rparr>]"
proof -
  let ?pre = "register_loop rejecting_validation ''router'' 0 (mod_name abort_module)
    default_methods () [(''fetch_a'', fetch_a)] empty_store"
  let ?call = "auto_route rejecting_validation 0 fetch_d default_methods () (snd ?pre)"
  let ?res = "register_functions_as_routes rejecting_validation abort_module default_methods ()
    empty_store"
  have routers: "find_routers_in_module abort_module = (''router'', 0) # []" by code_simp
  have members: "getmembers abort_module
      = [(''fetch_a'', fetch_a)] @ (''fetch_d'', fetch_d) # [(''zeta'', zeta)]" by code_simp
  have "fst ?pre = None" by code_simp
  then have before: "?pre = (None, snd ?pre)" by (metis prod.collapse)
  have elig: "eligible ''router'' (mod_name abort_module) (''fetch_d'', fetch_d)" by code_simp
  have "fst ?call = Some (RouterError ''invalid route'')" by code_simp
  then have raised: "?call = (Some (RouterError ''invalid route''), snd ?call)"
    by (metis prod.collapse)
  have routes: "map (route_for default_methods ()) (filter (eligible ''router''
      (mod_name abort_module)) [(''fetch_a'', fetch_a)])
    = [\<lparr>route_path = ''/fetch-a'', route_handler = fetch_a, route_methods = [''GET''],
           route_extra = ()\<rparr>]" by code_simp
  note main = registration_error_aborts [OF routers members before elig raised]
  from main have res: "?res = (Some (RouterError ''invalid route''), snd ?call)" by (rule conjunct1)
  from main have added: "routes_added empty_store (snd ?call) 0
      = map (route_for default_methods ()) (filter (eligible ''router''
          (mod_name abort_module)) [(''fetch_a'', fetch_a)])" by blast
  have 1: "fst ?res = Some (RouterError ''invalid route'')" unfolding res fst_conv ..
  have 2: "routes_added empty_store (snd ?res) 0
      = [\<lparr>route_path = ''/fetch-a'', route_handler = fetch_a, route_methods = [''GET''],
           route_extra = ()\<rparr>]" unfolding res snd_conv added routes ..
  from routers members 1 2 show ?thesis by blast
qed

text \<open>
  Claim C10. The decorators of a member are extracted before any of its eligibility
  conditions is looked at: a member without retrievable source makes the call raise,
  whatever its name and defining module, with the error of the source retrieval when the
  loop reaches it.
\<close>

theorem source_error_aborts:
  assumes routers: "find_routers_in_module m = (rn, R) # rest"
    and mem: "(n, f) \<in> set (getmembers m)"
    and src: "fn_source f = Inl e"
  shows "fst (register_functions_as_routes V m ms ex st) \<noteq> None
    \<and> (\<forall>pre post st1. getmembers m = pre @ (n, f) # post
          \<and> register_loop V rn R (mod_name m) ms ex pre st = (None, st1)
        \<longrightarrow> register_functions_as_routes V m ms ex st = (Some e, st1))"
proof
  show "fst (register_functions_as_routes V m ms ex st) \<noteq> None"
  proof
    assume "fst (register_functions_as_routes V m ms ex st) = None"
    then obtain st' where
      "register_loop V rn R (mod_name m) ms ex (getmembers m) st = (None, st')"
      unfolding register_functions_as_routes_loop [OF routers] by (metis prod.collapse)
    from register_loop_member_ok [OF this mem] obtain st1 st2 where
      "register_member V rn R (mod_name m) ms ex (n, f) st1 = (None, st2)" by blast
    with source_error_raised [OF src, of V rn R "mod_name m" ms ex n st1] show False by simp
  qed
next
  show "\<forall>pre post st1. getmembers m = pre @ (n, f) # post
          \<and> register_loop V rn R (mod_name m) ms ex pre st = (None, st1)
        \<longrightarrow> register_functions_as_routes V m ms ex st = (Some e, st1)"
  proof (intro allI impI)
    fix pre post st1
    assume a: "getmembers m = pre @ (n, f) # post
          \<and> register_loop V rn R (mod_name m) ms ex pre st = (None, st1)"
    then have before: "register_loop V rn R (mod_name m) ms ex pre st = (None, st1)" by simp
    from register_loop_abort [OF before source_error_raised [OF src]] a
    show "register_functions_as_routes V m ms ex st = (Some e, st1)"
      by (simp only: register_functions_as_routes_loop [OF routers])
  qed
qed

theorem source_error_aborts_witness:
  "find_routers_in_module dynamic_module = [(''router'', 0)]
   \<and> getmembers dynamic_module
       = [(''fetch_a'', fetch_a)] @ (''noroute_dyn'', noroute_dyn) # [(''zeta'', zeta)]
   \<and> fn_source noroute_dyn = Inl (SourceError ''could not get source code'')
   \<and> startswith ''noroute_dyn'' ''noroute_''
   \<and> fn_module noroute_dyn \<noteq> mod_name dynamic_module
   \<and> fst (register_functions_as_routes no_validation dynamic_module default_methods ()
        empty_store) = Some (SourceError ''could not get source code'')
   \<and> routes_added empty_store
        (snd (register_functions_as_routes no_validation dynamic_module default_methods ()
           empty_store)) 0
      = [\<lparr>route_path = ''/fetch-a'', route_handler = fetch_a, route_methods = [''GET''],
           route_extra = ()\<rparr>]"
proof -
  let ?pre = "register_loop no_validation ''router'' 0 (mod_name dynamic_module)
    default_methods () [(''fetch_a'', fetch_a)] empty_store"
  have routers: "find_routers_in_module dynamic_module = (''router'', 0) # []" by code_simp
  have members: "getmembers dynamic_module
      = [(''fetch_a'', fetch_a)] @ (''noroute_dyn'', noroute_dyn) # [(''zeta'', zeta)]"
    by code_simp
  then have mem: "(''noroute_dyn'', noroute_dyn) \<in> set (getmembers dynamic_module)" by simp
  have src: "fn_source noroute_dyn = Inl (SourceError ''could not get source code'')"
    by (simp add: noroute_dyn_def)
  have pre: "startswith ''noroute_dyn'' ''noroute_''" by code_simp
  have other: "fn_module noroute_dyn \<noteq> mod_name dynamic_module" by code_simp
  have "fst ?pre = None" by code_simp
  then have before: "?pre = (None, snd ?pre)" by (metis prod.collapse)
  have routes: "routes_added empty_store (snd ?pre) 0
      = [\<lparr>route_path = ''/fetch-a'', route_handler = fetch_a, route_methods = [''GET''],
           route_extra = ()\<rparr>]" by code_simp
  let ?res = "register_functions_as_routes no_validation dynamic_module default_methods ()
    empty_store"
  from source_error_aborts [OF routers mem src, of no_validation default_methods "()" empty_store]
    members before
  have res: "?res = (Some (SourceError ''could not get source code''), snd ?pre)" by blast
  have 1: "fst ?res = Some (SourceError ''could not get source code'')" unfolding res fst_conv ..
  have 2: "routes_added empty_store (snd ?res) 0
      = [\<lparr>route_path = ''/fetch-a'', route_handler = fetch_a, route_methods = [''GET''],
           route_extra = ()\<rparr>]" unfolding res snd_conv routes ..
  from routers members src pre other 1 2 show ?thesis by blast
qed

subsection \<open>The claims about the decorator parser\<close>

lemma is_space_not_name_char: "is_space c \<Longrightarrow> \<not> name_char c"
  by (auto simp: is_space_def name_char_def is_word_def Let_def)

lemma paren_classes: "\<not> name_char CHR ''(''" "\<not> is_space CHR ''(''"
  by (simp_all add: is_space_def name_char_def is_word_def)

lemma is_word_not_marker: "is_word c \<Longrightarrow> c \<noteq> CHR ''@''"
  by (auto simp: is_word_def)

lemma dotted_identifier_chars:
  assumes "dotted_identifier name"
  shows "name \<noteq> []" and "is_word (hd name)" and "\<And>c. c \<in> set name \<Longrightarrow> name_char c"
  using assms by (auto simp: dotted_identifier_def name_char_def list_all_iff split: list.splits)

lemma lstrip_marker:
  assumes "dotted_identifier name"
  shows "lstrip_chars (''@'' @ name @ rest) ''@'' = name @ rest"
proof -
  from dotted_identifier_chars [OF assms] obtain c cs where n: "name = c # cs" and "is_word c"
    by (cases name) auto
  then have "c \<noteq> CHR ''@''" by (simp add: is_word_not_marker)
  with n show ?thesis by (simp add: lstrip_chars_def)
qed

lemma re_match_name:
  assumes d: "dotted_identifier name" and ws: "list_all is_space ws"
    and rest: "rest = [] \<or> hd rest = CHR ''(''"
  shows "re_match (name @ ws @ rest) =
     Some (name,
       (case rest of
          [] \<Rightarrow> None
        | p # body \<Rightarrow>
            let line = takeWhile (\<lambda>c. c \<noteq> CHR 0x0A) body
            in if CHR '')'' \<in> set line
               then Some (rev (tl (dropWhile (\<lambda>c. c \<noteq> CHR '')'') (rev line))))
               else None))"
proof -
  note dc = dotted_identifier_chars [OF d]
  from dc obtain c cs where n: "name = c # cs" and w: "is_word c" by (cases name) auto
  have stop: "takeWhile name_char (ws @ rest) = []"
  proof (cases ws)
    case Nil
    with rest show ?thesis by (cases rest) (auto simp: paren_classes)
  next
    case (Cons a as)
    with ws have "is_space a" by simp
    with Cons show ?thesis by (simp add: is_space_not_name_char)
  qed
  have tk: "takeWhile name_char (name @ ws @ rest) = name"
    using dc(3) stop by simp
  have "dropWhile name_char (ws @ rest) = ws @ rest"
    using stop by (metis append_Nil takeWhile_dropWhile_id)
  then have dr: "dropWhile name_char (name @ ws @ rest) = ws @ rest"
    using dc(3) by simp
  have "dropWhile is_space rest = rest"
    using rest by (cases rest) (auto simp: paren_classes)
  then have sp: "dropWhile is_space (ws @ rest) = rest"
    using ws by (simp add: list_all_iff)
  have "re_match ((c # cs) @ ws @ rest) =
     Some (takeWhile name_char ((c # cs) @ ws @ rest),
       (case dropWhile is_space (dropWhile name_char ((c # cs) @ ws @ rest)) of
          [] \<Rightarrow> None
        | p # body \<Rightarrow>
            if p \<noteq> CHR ''('' then None
            else
              let line = takeWhile (\<lambda>c. c \<noteq> CHR 0x0A) body
              in if CHR '')'' \<in> set line
                 then Some (rev (tl (dropWhile (\<lambda>c. c \<noteq> CHR '')'') (rev line))))
                 else None))"
    using w by (simp add: re_match_def Let_def del: takeWhile.simps dropWhile.simps takeWhile_append2 dropWhile_append2)
  then show ?thesis
    unfolding n [symmetric] tk dr sp using rest by (cases rest) simp_all
qed

lemma last_paren:
  assumes "CHR 0x0A \<notin> set inner"
  shows "(let line = takeWhile (\<lambda>c. c \<noteq> CHR 0x0A) (inner @ '')'')
          in if CHR '')'' \<in> set line
             then Some (rev (tl (dropWhile (\<lambda>c. c \<noteq> CHR '')'') (rev line))))
             else None) = Some inner"
proof -
  have "\<forall>c \<in> set (inner @ '')''). c \<noteq> CHR 0x0A" using assms by auto
  then have "takeWhile (\<lambda>c. c \<noteq> CHR 0x0A) (inner @ '')'') = inner @ '')''"
    by (simp only: takeWhile_eq_all_conv)
  then show ?thesis by simp
qed

lemma re_match_bare:
  assumes "dotted_identifier name" and "list_all is_space ws"
  shows "re_match (name @ ws) = Some (name, None)"
  using re_match_name [OF assms, of "[]"] by simp

lemma re_match_paren:
  assumes "dotted_identifier name" and "list_all is_space ws"
  shows "re_match (name @ ws @ CHR ''('' # body) =
     Some (name,
       (let line = takeWhile (\<lambda>c. c \<noteq> CHR 0x0A) body
        in if CHR '')'' \<in> set line
           then Some (rev (tl (dropWhile (\<lambda>c. c \<noteq> CHR '')'') (rev line))))
           else None))"
  using re_match_name [OF assms, of "CHR ''('' # body"] by simp

lemma re_match_call:
  assumes d: "dotted_identifier name" and ws: "list_all is_space ws"
    and inner: "CHR 0x0A \<notin> set inner"
  shows "re_match (name @ ws @ CHR ''('' # inner @ '')'') = Some (name, Some inner)"
  unfolding re_match_paren [OF d ws] last_paren [OF inner] ..

lemma parse_decorator_line_match:
  assumes "dotted_identifier name" and "re_match (name @ rest) = Some (name, a)"
  shows "parse_decorator_line (''@'' @ name @ rest) =
     SimpleNamespace name
       (case a of None \<Rightarrow> [] | Some a \<Rightarrow> if a = [] then [] else map strip (split_str a CHR '',''))"
  unfolding parse_decorator_line_def lstrip_marker [OF assms(1)] Let_def assms(2) by simp

text \<open>
  Claim C5. A line made of the marker, a dotted identifier, optional white space and an
  optional parenthesised argument text on one line parses to the identifier as name and to
  the argument text split at its commas, each piece stripped, in order; the arguments are
  empty without an argument list and for empty parentheses.
\<close>

theorem parse_decorator_line_shape:
  assumes d: "dotted_identifier name" and ws: "list_all is_space ws"
    and inner: "CHR 0x0A \<notin> set inner"
  shows \<open>parse_decorator_line (''@'' @ name @ ws) = SimpleNamespace name []
    \<and> parse_decorator_line (''@'' @ name @ ws @ ''('' @ inner @ '')'')
        = SimpleNamespace name
            (if inner = [] then [] else map strip (split_str inner CHR '',''))
    \<and> parse_decorator_line ''@router.get("/custom", tags=["x"])''
        = SimpleNamespace ''router.get'' [''"/custom"'', ''tags=["x"]'']\<close>
proof (intro conjI)
  show "parse_decorator_line (''@'' @ name @ ws) = SimpleNamespace name []"
    unfolding parse_decorator_line_match [OF d re_match_bare [OF d ws]] by simp
next
  have "parse_decorator_line (''@'' @ name @ ws @ CHR ''('' # inner @ '')'')
        = SimpleNamespace name
            (if inner = [] then [] else map strip (split_str inner CHR '',''))"
    unfolding parse_decorator_line_match [OF d re_match_call [OF d ws inner]] by simp
  then show "parse_decorator_line (''@'' @ name @ ws @ ''('' @ inner @ '')'')
        = SimpleNamespace name
            (if inner = [] then [] else map strip (split_str inner CHR '',''))"
    by simp
next
  show \<open>parse_decorator_line ''@router.get("/custom", tags=["x"])''
        = SimpleNamespace ''router.get'' [''"/custom"'', ''tags=["x"]'']\<close>
    by code_simp
qed

theorem parse_decorator_line_shape_witness:
  \<open>dotted_identifier ''app.router.post'' \<and> list_all is_space '' ''
   \<and> CHR 0x0A \<notin> set ''"/items" , status_code=201''
   \<and> parse_decorator_line ''@app.router.post '' = SimpleNamespace ''app.router.post'' []
   \<and> parse_decorator_line ''@app.router.post ("/items" , status_code=201)''
       = SimpleNamespace ''app.router.post'' [''"/items"'', ''status_code=201'']\<close>
proof -
  have d: "dotted_identifier ''app.router.post''" by code_simp
  have ws: "list_all is_space '' ''" by code_simp
  have inner: \<open>CHR 0x0A \<notin> set ''"/items" , status_code=201''\<close> by code_simp
  have args: \<open>(if ''"/items" , status_code=201'' = [] then []
      else map strip (split_str ''"/items" , status_code=201'' CHR '',''))
      = [''"/items"'', ''status_code=201'']\<close> by code_simp
  from parse_decorator_line_shape [OF d ws inner] d ws inner
  show ?thesis unfolding args by simp
qed

text \<open>
  Claim C6. Where the pattern does not match, the parser returns a plain tuple of the text
  after the marker and an empty list, not a namespace: the result has no field
  \<^verbatim>\<open>name\<close>, and reading it, as the registrar does, raises \<^verbatim>\<open>AttributeError\<close>.
\<close>

theorem parse_decorator_line_no_match:
  \<open>parse_decorator_line ''@ router.get("/x")'' = Tuple '' router.get("/x")'' []
   \<and> attr_name (parse_decorator_line ''@ router.get("/x")'') = Inl AttributeError\<close>
  by code_simp

subsection \<open>The claims about the decorator extractor\<close>

lemma is_linebreak_space: "is_linebreak c \<Longrightarrow> is_space c"
  by (auto simp: is_linebreak_def is_space_def Let_def)

lemma feed_not_return: "CHR 0x0A \<noteq> CHR 0x0D"
  by simp

lemma strip_Nil: "strip [] = []"
  by (simp add: strip_def lstrip_def rstrip_def)

lemma strip_space_Cons: "is_space c \<Longrightarrow> strip (c # l) = strip l"
  by (simp add: strip_def lstrip_def)

lemma rstrip_space_snoc: "is_space c \<Longrightarrow> rstrip (l @ [c]) = rstrip l"
  by (simp add: rstrip_def)

lemma strip_space_snoc:
  assumes "is_space c"
  shows "strip (l @ [c]) = strip l"
proof (cases "\<forall>x \<in> set l. is_space x")
  case True
  then have "dropWhile is_space (l @ [c]) = []" "dropWhile is_space l = []"
    using assms by simp_all
  then show ?thesis by (simp only: strip_def lstrip_def)
next
  case False
  then obtain x where "x \<in> set l" "\<not> is_space x" by blast
  then have "dropWhile is_space (l @ [c]) = dropWhile is_space l @ [c]"
    by (rule dropWhile_append1)
  then show ?thesis
    by (simp only: strip_def lstrip_def rstrip_space_snoc [OF assms])
qed

lemma splitlines_Nil: "splitlines [] = []"
  by (simp add: splitlines.simps)

lemma splitlines_break:
  assumes "is_linebreak c"
  shows "splitlines (c # t) =
     [] # (case t of [] \<Rightarrow> []
           | d # t' \<Rightarrow> if c = CHR 0x0D \<and> d = CHR 0x0A then splitlines t' else splitlines t)"
  using assms by (subst splitlines.simps) (simp add: splitlines_Nil split: list.splits)

lemma splitlines_single: "\<not> is_linebreak c \<Longrightarrow> splitlines [c] = [[c]]"
  by (subst splitlines.simps) simp

lemma splitlines_nonempty: "t \<noteq> [] \<Longrightarrow> splitlines t \<noteq> []"
  by (subst splitlines.simps) simp

lemma splitlines_char:
  assumes "\<not> is_linebreak c" and "t \<noteq> []"
  shows "splitlines (c # t) = (c # hd (splitlines t)) # tl (splitlines t)"
proof -
  have 1: "splitlines (c # t) = (c # takeWhile (\<lambda>c. \<not> is_linebreak c) t) #
        (case dropWhile (\<lambda>c. \<not> is_linebreak c) t of
           [] \<Rightarrow> []
         | c # r \<Rightarrow>
             (case r of
                [] \<Rightarrow> splitlines r
              | d # r' \<Rightarrow> if c = CHR 0x0D \<and> d = CHR 0x0A then splitlines r' else splitlines r))"
    using assms(1) by (subst splitlines.simps) simp
  have 2: "splitlines t = takeWhile (\<lambda>c. \<not> is_linebreak c) t #
        (case dropWhile (\<lambda>c. \<not> is_linebreak c) t of
           [] \<Rightarrow> []
         | c # r \<Rightarrow>
             (case r of
                [] \<Rightarrow> splitlines r
              | d # r' \<Rightarrow> if c = CHR 0x0D \<and> d = CHR 0x0A then splitlines r' else splitlines r))"
    using assms(2) by (subst splitlines.simps) simp
  show ?thesis unfolding 1 by (subst (1 2) 2) simp
qed

lemma nonblank_Cons: "nonblank (l # ls) = (if strip l = [] then nonblank ls else strip l # nonblank ls)"
  by (simp add: nonblank_def)

lemma nonblank_Nil: "nonblank [] = []"
  by (simp add: nonblank_def)

lemma nonblank_space_Cons:
  assumes "is_space c"
  shows "nonblank (splitlines (c # t)) = nonblank (splitlines t)"
proof (cases "is_linebreak c")
  case True
  note br = splitlines_break [OF True]
  show ?thesis
  proof (cases t)
    case Nil
    then show ?thesis by (simp add: br nonblank_Cons nonblank_Nil strip_Nil splitlines_Nil)
  next
    case (Cons d t')
    show ?thesis
    proof (cases "c = CHR 0x0D \<and> d = CHR 0x0A")
      case True
      then have "is_linebreak d" by (simp add: is_linebreak_def)
      from splitlines_break [OF this, of t'] True
      have "splitlines (d # t') = [] # splitlines t'"
        by (cases t') (simp_all add: splitlines_Nil)
      then have 1: "nonblank (splitlines t) = nonblank (splitlines t')"
        unfolding Cons by (simp add: nonblank_Cons strip_Nil)
      from br True have "splitlines (c # t) = [] # splitlines t'"
        unfolding Cons by simp
      then have 2: "nonblank (splitlines (c # t)) = nonblank (splitlines t')"
        by (simp add: nonblank_Cons strip_Nil)
      from 1 2 show ?thesis by simp
    next
      case False
      then have "(if c = CHR 0x0D \<and> d = CHR 0x0A then splitlines t' else splitlines (d # t'))
          = splitlines (d # t')" by (rule if_not_P)
      with br [of "d # t'"] have "splitlines (c # t) = [] # splitlines t"
        unfolding Cons by (simp only: list.case)
      then show ?thesis by (simp add: nonblank_Cons strip_Nil)
    qed
  qed
next
  case False
  show ?thesis
  proof (cases t)
    case Nil
    then show ?thesis
      by (simp add: splitlines_single [OF False] splitlines_Nil nonblank_Cons nonblank_Nil
          strip_space_Cons [OF assms] strip_Nil)
  next
    case (Cons d t')
    then have ne: "t \<noteq> []" by simp
    from splitlines_nonempty [OF ne] obtain l ls where s: "splitlines t = l # ls"
      by (cases "splitlines t") auto
    from splitlines_char [OF False ne] s have "splitlines (c # t) = (c # l) # ls" by simp
    then show ?thesis by (simp add: s nonblank_Cons strip_space_Cons [OF assms])
  qed
qed


lemma splitlines_line:
  assumes "\<forall>x \<in> set l. \<not> is_linebreak x" and "l \<noteq> []"
  shows "splitlines l = [l]"
proof -
  from assms(1) have tk: "takeWhile (\<lambda>c. \<not> is_linebreak c) l = l"
    and dr: "dropWhile (\<lambda>c. \<not> is_linebreak c) l = []" by simp_all
  from assms(2) show ?thesis
    by (subst splitlines.simps) (simp only: tk dr list.case if_False)
qed

lemma splitlines_line_break:
  assumes "\<forall>x \<in> set l. \<not> is_linebreak x" and "is_linebreak b"
  shows "splitlines (l @ b # r) =
     l # (case r of [] \<Rightarrow> []
          | d # q \<Rightarrow> if b = CHR 0x0D \<and> d = CHR 0x0A then splitlines q else splitlines r)"
proof -
  from assms have tk: "takeWhile (\<lambda>c. \<not> is_linebreak c) (l @ b # r) = l"
    and dr: "dropWhile (\<lambda>c. \<not> is_linebreak c) (l @ b # r) = b # r" by simp_all
  have ne: "l @ b # r \<noteq> []" by simp
  have "splitlines (l @ b # r) =
     l # (case r of [] \<Rightarrow> splitlines r
          | d # q \<Rightarrow> if b = CHR 0x0D \<and> d = CHR 0x0A then splitlines q else splitlines r)"
    by (subst splitlines.simps) (simp only: tk dr list.case ne if_False)
  then show ?thesis by (cases r) (simp_all add: splitlines_Nil)
qed

lemma nonblank_single:
  assumes "is_space c"
  shows "nonblank (splitlines [c]) = []"
  using nonblank_space_Cons [OF assms, of "[]"] by (simp add: splitlines_Nil nonblank_Nil)

lemma nonblank_space_snoc:
  assumes sp: "is_space c"
  shows "nonblank (splitlines (t @ [c])) = nonblank (splitlines t)"
proof (induction t rule: length_induct)
  case (1 t)
  show ?case
  proof (cases "t = []")
    case True
    then show ?thesis by (simp add: nonblank_single [OF sp] splitlines_Nil nonblank_Nil)
  next
    case False
    show ?thesis
    proof (cases "\<forall>x \<in> set t. \<not> is_linebreak x")
      case True
      have whole: "splitlines t = [t]" by (rule splitlines_line [OF True False])
      show ?thesis
      proof (cases "is_linebreak c")
        case True
        from splitlines_line_break [OF \<open>\<forall>x \<in> set t. \<not> is_linebreak x\<close> True, of "[]"]
        have "splitlines (t @ [c]) = [t]" by simp
        with whole show ?thesis by simp
      next
        case False
        with True have "\<forall>x \<in> set (t @ [c]). \<not> is_linebreak x" by simp
        from splitlines_line [OF this] have "splitlines (t @ [c]) = [t @ [c]]" by simp
        with whole show ?thesis by (simp add: nonblank_Cons strip_space_snoc [OF sp])
      qed
    next
      case False
      then have "dropWhile (\<lambda>c. \<not> is_linebreak c) t \<noteq> []" by simp
      then obtain b r where dr: "dropWhile (\<lambda>c. \<not> is_linebreak c) t = b # r"
        by (cases "dropWhile (\<lambda>c. \<not> is_linebreak c) t") auto
      define l where "l = takeWhile (\<lambda>c. \<not> is_linebreak c) t"
      from dr have t: "t = l @ b # r" and b: "is_linebreak b"
        unfolding l_def by (simp_all add: dropWhile_eq_Cons_conv)
      have l: "\<forall>x \<in> set l. \<not> is_linebreak x"
        unfolding l_def by (auto dest: set_takeWhileD)
      have tc: "t @ [c] = l @ b # (r @ [c])" unfolding t by simp
      have 2: "splitlines t = l # (case r of [] \<Rightarrow> []
          | d # q \<Rightarrow> if b = CHR 0x0D \<and> d = CHR 0x0A then splitlines q else splitlines r)"
        unfolding t by (rule splitlines_line_break [OF l b])
      have 3: "splitlines (t @ [c]) = l # (case r @ [c] of [] \<Rightarrow> []
          | d # q \<Rightarrow> if b = CHR 0x0D \<and> d = CHR 0x0A then splitlines q
                     else splitlines (r @ [c]))"
        unfolding tc by (rule splitlines_line_break [OF l b])
      have rest: "nonblank (case r @ [c] of [] \<Rightarrow> []
          | d # q \<Rightarrow> if b = CHR 0x0D \<and> d = CHR 0x0A then splitlines q
                     else splitlines (r @ [c]))
        = nonblank (case r of [] \<Rightarrow> []
          | d # q \<Rightarrow> if b = CHR 0x0D \<and> d = CHR 0x0A then splitlines q else splitlines r)"
      proof (cases r)
        case Nil
        then show ?thesis
          by (simp add: nonblank_single [OF sp] splitlines_Nil nonblank_Nil)
      next
        case (Cons d q)
        have "length q < length t" "length r < length t" unfolding t Cons by simp_all
        with "1.IH" have iq: "nonblank (splitlines (q @ [c])) = nonblank (splitlines q)"
          and ir: "nonblank (splitlines (r @ [c])) = nonblank (splitlines r)" by blast+
        show ?thesis
        proof (cases "b = CHR 0x0D \<and> d = CHR 0x0A")
          case True
          show ?thesis unfolding Cons append_Cons list.case if_P [OF True] by (rule iq)
        next
          case False
          show ?thesis unfolding Cons append_Cons list.case if_not_P [OF False]
            using ir unfolding Cons append_Cons .
        qed
      qed
      show ?thesis unfolding 2 3 nonblank_Cons rest ..
    qed
  qed
qed

lemma nonblank_lstrip: "nonblank (splitlines (lstrip t)) = nonblank (splitlines t)"
  unfolding lstrip_def by (induction t) (simp_all add: nonblank_space_Cons)

lemma nonblank_rstrip: "nonblank (splitlines (rstrip t)) = nonblank (splitlines t)"
proof (induction t rule: rev_induct)
  case Nil
  then show ?case by (simp add: rstrip_def)
next
  case (snoc c t)
  show ?case
  proof (cases "is_space c")
    case True
    then have "rstrip (t @ [c]) = rstrip t" by (rule rstrip_space_snoc)
    with snoc nonblank_space_snoc [OF True, of t] show ?thesis by simp
  next
    case False
    then have "rstrip (t @ [c]) = t @ [c]" by (simp add: rstrip_def)
    then show ?thesis by simp
  qed
qed

lemma nonblank_strip: "nonblank (splitlines (strip t)) = nonblank (splitlines t)"
  unfolding strip_def by (simp only: nonblank_rstrip nonblank_lstrip)


lemma startswith_self: "startswith (sub @ post) sub"
  by (simp add: startswith_def)

lemma find_str_first:
  assumes "\<forall>j<length pre. \<not> startswith (drop j (pre @ sub @ post)) sub"
  shows "find_str (pre @ sub @ post) sub = int (length pre)"
  using assms
proof (induction pre)
  case Nil
  show ?case
  proof (cases "sub @ post")
    case Nil
    then show ?thesis by simp
  next
    case (Cons c s)
    with startswith_self [of sub post] have "startswith (c # s) sub" by simp
    with Cons show ?thesis by simp
  qed
next
  case (Cons c pre)
  from Cons.prems have "\<not> startswith (drop 0 ((c # pre) @ sub @ post)) sub" by blast
  then have here: "\<not> startswith (c # pre @ sub @ post) sub" by simp
  have "\<forall>j<length pre. \<not> startswith (drop j (pre @ sub @ post)) sub"
  proof (intro allI impI)
    fix j assume "j < length pre"
    then have "Suc j < length (c # pre)" by simp
    with Cons.prems have "\<not> startswith (drop (Suc j) ((c # pre) @ sub @ post)) sub" by blast
    then show "\<not> startswith (drop j (pre @ sub @ post)) sub" by simp
  qed
  from Cons.IH [OF this] here show ?case by simp
qed

lemma startswith_marker: "startswith l ''@'' \<longleftrightarrow> l \<noteq> [] \<and> hd l = CHR ''@''"
  by (cases l) (simp_all add: startswith_def)

lemma comprehension_filter:
  "[strip line. line \<leftarrow> ls, startswith (strip line) ''@'']
     = filter (\<lambda>l. startswith l ''@'') (nonblank ls)"
  by (induction ls) (auto simp: nonblank_def startswith_marker)

lemma marked_filter:
  "[strip line. line \<leftarrow> ls, strip line \<noteq> [], hd (strip line) = CHR ''@'']
     = filter (\<lambda>l. startswith l ''@'') (nonblank ls)"
  by (induction ls) (auto simp: nonblank_def startswith_marker)

lemma decorator_lines_spec_filter:
  "decorator_lines_spec text = filter (\<lambda>l. startswith l ''@'') (nonblank (splitlines text))"
  unfolding decorator_lines_spec_def by (rule marked_filter)

lemma find_str_negative: "find_str s sub < 0 \<Longrightarrow> find_str s sub = - 1"
  by (induction s) (auto simp: Let_def split: if_splits)

lemma get_decorator_lines_no_keyword:
  assumes "fn_source fn = Inr source" and "find_str source ''def '' < 0"
  shows "get_decorator_lines fn = Inr (decorator_lines_spec (butlast source))"
proof -
  from find_str_negative [OF assms(2)]
  have "slice_to source (find_str source ''def '') = butlast source"
    by (simp add: slice_to_def butlast_conv_take nat_diff_distrib')
  with assms(1) have "get_decorator_lines fn =
      Inr [strip line. line \<leftarrow> splitlines (strip (butlast source)),
           startswith (strip line) ''@'']"
    by (simp add: get_decorator_lines_def Let_def)
  then show ?thesis
    by (simp only: comprehension_filter decorator_lines_spec_filter nonblank_strip)
qed

text \<open>
  Where the source text holds \<^verbatim>\<open>def\<close> followed by a space, the extractor returns, in
  order, the stripped lines of the text before the first such place that are not empty and
  begin with the marker; the error of a failed retrieval is passed on as it is.
\<close>

lemma get_decorator_lines_before_keyword:
  "(fn_source fn = Inr (pre @ ''def '' @ post)
      \<and> (\<forall>j<length pre. \<not> startswith (drop j (pre @ ''def '' @ post)) ''def '')
    \<longrightarrow> get_decorator_lines fn = Inr (decorator_lines_spec pre))
   \<and> (fn_source fn = Inl e \<longrightarrow> get_decorator_lines fn = Inl e)"
proof (intro conjI impI)
  assume a: "fn_source fn = Inr (pre @ ''def '' @ post)
      \<and> (\<forall>j<length pre. \<not> startswith (drop j (pre @ ''def '' @ post)) ''def '')"
  then have "find_str (pre @ ''def '' @ post) ''def '' = int (length pre)"
    using find_str_first [of pre "''def ''" post] by blast
  then have "slice_to (pre @ ''def '' @ post) (find_str (pre @ ''def '' @ post) ''def '') = pre"
    by (simp add: slice_to_def)
  with a have "get_decorator_lines fn =
      Inr [strip line. line \<leftarrow> splitlines (strip pre), startswith (strip line) ''@'']"
    by (simp add: get_decorator_lines_def Let_def)
  then show "get_decorator_lines fn = Inr (decorator_lines_spec pre)"
    by (simp only: comprehension_filter decorator_lines_spec_filter nonblank_strip)
next
  assume "fn_source fn = Inl e"
  then show "get_decorator_lines fn = Inl e" by (simp add: get_decorator_lines_def)
qed

lemma get_decorator_lines_before_keyword_example:
  \<open>fn_source fetch_e =
     Inr ((''    @router.get("/e")'' @ [CHR 0x0A] @ [CHR 0x0A] @ ''    # cached'' @ [CHR 0x0A]
            @ ''    @cache  '' @ [CHR 0x0A] @ ''    async '') @ ''def ''
          @ (''fetch_e(self):'' @ [CHR 0x0A] @ ''        return 5'' @ [CHR 0x0A]))
   \<and> get_decorator_lines fetch_e = Inr [''@router.get("/e")'', ''@cache'']
   \<and> fn_source noroute_dyn = Inl (SourceError ''could not get source code'')
   \<and> get_decorator_lines noroute_dyn = Inl (SourceError ''could not get source code'')\<close>
proof -
  let ?pre = \<open>''    @router.get("/e")'' @ [CHR 0x0A] @ [CHR 0x0A] @ ''    # cached'' @ [CHR 0x0A]
            @ ''    @cache  '' @ [CHR 0x0A] @ ''    async ''\<close>
  let ?post = "''fetch_e(self):'' @ [CHR 0x0A] @ ''        return 5'' @ [CHR 0x0A]"
  have src: "fn_source fetch_e = Inr (?pre @ ''def '' @ ?post)" by (simp add: fetch_e_def)
  have "list_all (\<lambda>j. \<not> startswith (drop j (?pre @ ''def '' @ ?post)) ''def '')
      [0..<length ?pre]" by code_simp
  then have first: "\<forall>j<length ?pre. \<not> startswith (drop j (?pre @ ''def '' @ ?post)) ''def ''"
    unfolding list_all_iff by (metis atLeastLessThan_iff set_upt zero_le)
  have spec: \<open>decorator_lines_spec ?pre = [''@router.get("/e")'', ''@cache'']\<close> by code_simp
  have dyn: "fn_source noroute_dyn = Inl (SourceError ''could not get source code'')"
    by (simp add: noroute_dyn_def)
  from get_decorator_lines_before_keyword [of fetch_e ?pre ?post] src first
  have 1: "get_decorator_lines fetch_e = Inr (decorator_lines_spec ?pre)" by blast
  from get_decorator_lines_before_keyword [of noroute_dyn "[]" "[]"] dyn
  have 2: "get_decorator_lines noroute_dyn = Inl (SourceError ''could not get source code'')"
    by blast
  from src 1 2 dyn show ?thesis unfolding spec by blast
qed

text \<open>
  Claim C9. The extractor is to return the marked lines above the function definition.
  The code finds the definition by the text \<^verbatim>\<open>def\<close> followed by a space (line 28) and
  does not look at what \<^verbatim>\<open>find\<close> returns. For a definition written with a tab after the
  keyword \<^verbatim>\<open>find\<close> returns \<open>-1\<close>, the slice of line 29 is the whole source less its last
  character, and a marked line of the docstring, below the definition, is returned as a
  decorator line, where no line at all precedes the definition.
\<close>

theorem get_decorator_lines_tabbed_keyword:
  \<open>fn_source tabbed =
       Inr (''async def'' @ [CHR 0x09] @ ''tabbed():'' @ [CHR 0x0A]
            @ ''    """Fetch.'' @ [CHR 0x0A] @ [CHR 0x0A]
            @ ''    @see other'' @ [CHR 0x0A]
            @ ''    """'' @ [CHR 0x0A] @ ''    return 10'' @ [CHR 0x0A])
   \<and> find_str (''async def'' @ [CHR 0x09] @ ''tabbed():'' @ [CHR 0x0A]
            @ ''    """Fetch.'' @ [CHR 0x0A] @ [CHR 0x0A]
            @ ''    @see other'' @ [CHR 0x0A]
            @ ''    """'' @ [CHR 0x0A] @ ''    return 10'' @ [CHR 0x0A]) ''def '' = - 1
   \<and> decorator_lines_spec ''async '' = []
   \<and> get_decorator_lines tabbed = Inr [''@see other'']\<close>
  by code_simp

end
